theory Spec2Isabelle
  imports Main
begin

section \<open>Terminal maze solver: the grid and the A* search of \<open>main.py\<close>\<close>

subsection \<open>Python values\<close>

text \<open>A cell is a Python tuple \<open>(row, col)\<close> of unbounded integers.\<close>

type_synonym cell = "int \<times> int"

text \<open>
  The exceptions the modelled code can raise: the \<open>ValueError\<close> of the constructor
  (carrying the marker that was not found) and the \<open>IndexError\<close> of a list subscript.
\<close>

datatype error = ValueError char | IndexError

text \<open>Python list subscript \<open>xs[i]\<close>: a negative index counts from the end.\<close>

definition py_index :: "'a list \<Rightarrow> int \<Rightarrow> error + 'a" where
  "py_index xs i =
     (if 0 \<le> i \<and> i < int (length xs) then Inr (xs ! nat i)
      else if i < 0 \<and> - int (length xs) \<le> i then Inr (xs ! nat (int (length xs) + i))
      else Inl IndexError)"

text \<open>The double subscript \<open>self.grid[r][c]\<close>.\<close>

definition grid_at :: "char list list \<Rightarrow> int \<Rightarrow> int \<Rightarrow> error + char" where
  "grid_at g r c = (case py_index g r of Inl e \<Rightarrow> Inl e | Inr row \<Rightarrow> py_index row c)"

text \<open>
  A score is a Python number that is either an integer or \<open>float('inf')\<close>, the default
  of the two \<open>defaultdict\<close>s.
\<close>

datatype score = Fin int | Inf

fun score_plus :: "score \<Rightarrow> int \<Rightarrow> score" where
  "score_plus (Fin a) k = Fin (a + k)"
| "score_plus Inf k = Inf"

fun score_less :: "score \<Rightarrow> score \<Rightarrow> bool" where
  "score_less (Fin a) (Fin b) = (a < b)"
| "score_less (Fin a) Inf = True"
| "score_less Inf b = False"

subsection \<open>class MazeGrid\<close>

text \<open>
  The matrix is a list of rows; a marker is a one-character string, modelled by its
  character. The fields are those the constructor sets.
\<close>

record maze_grid =
  grid :: "char list list"
  rows :: int
  cols :: int
  start :: cell
  goal :: cell

text \<open>
  \<open>_find_position\<close>: the inner loop \<open>for c in range(self.cols)\<close> and the outer loop
  \<open>for r in range(self.rows)\<close>, each returning at the first match.
\<close>

fun scan_cols :: "char list list \<Rightarrow> char \<Rightarrow> nat \<Rightarrow> nat list \<Rightarrow> error + cell option" where
  "scan_cols g symbol r [] = Inr None"
| "scan_cols g symbol r (c # cs) =
     (case grid_at g (int r) (int c) of
        Inl e \<Rightarrow> Inl e
      | Inr x \<Rightarrow> if x = symbol then Inr (Some (int r, int c)) else scan_cols g symbol r cs)"

fun scan_rows :: "char list list \<Rightarrow> char \<Rightarrow> nat \<Rightarrow> nat list \<Rightarrow> error + cell option" where
  "scan_rows g symbol ncols [] = Inr None"
| "scan_rows g symbol ncols (r # rs) =
     (case scan_cols g symbol r [0..<ncols] of
        Inl e \<Rightarrow> Inl e
      | Inr (Some p) \<Rightarrow> Inr (Some p)
      | Inr None \<Rightarrow> scan_rows g symbol ncols rs)"

definition find_position :: "char list list \<Rightarrow> nat \<Rightarrow> nat \<Rightarrow> char \<Rightarrow> error + cell option" where
  "find_position g nrows ncols symbol = scan_rows g symbol ncols [0..<nrows]"

text \<open>
  \<open>MazeGrid.__init__\<close>: \<open>rows = len(grid)\<close>, \<open>cols = len(grid[0]) if grid else 0\<close>, both
  markers are searched, then the two \<open>raise ValueError\<close> checks run in this order.
\<close>

definition MazeGrid :: "char list list \<Rightarrow> error + maze_grid" where
  "MazeGrid g =
     (let nrows = length g;
          ncols = (case g of [] \<Rightarrow> 0 | row0 # _ \<Rightarrow> length row0)
      in case find_position g nrows ncols (CHR ''S'') of
           Inl e \<Rightarrow> Inl e
         | Inr start_pos \<Rightarrow>
            (case find_position g nrows ncols (CHR ''G'') of
               Inl e \<Rightarrow> Inl e
             | Inr goal_pos \<Rightarrow>
                (case start_pos of
                   None \<Rightarrow> Inl (ValueError (CHR ''S''))
                 | Some s \<Rightarrow>
                    (case goal_pos of
                       None \<Rightarrow> Inl (ValueError (CHR ''G''))
                     | Some t \<Rightarrow>
                        Inr \<lparr>grid = g, rows = int nrows, cols = int ncols,
                             start = s, goal = t\<rparr>))))"

text \<open>\<open>is_valid\<close>: the bounds test guards the subscript.\<close>

definition is_valid :: "maze_grid \<Rightarrow> cell \<Rightarrow> error + bool" where
  "is_valid m pos =
     (case pos of (row, col) \<Rightarrow>
        if 0 \<le> row \<and> row < rows m \<and> 0 \<le> col \<and> col < cols m
        then (case grid_at (grid m) row col of
                Inl e \<Rightarrow> Inl e
              | Inr x \<Rightarrow> Inr (x \<noteq> CHR ''#''))
        else Inr False)"

text \<open>\<open>get_neighbors\<close>: the four directions in the order up, down, left, right.\<close>

definition directions :: "(int \<times> int) list" where
  "directions = [(-1, 0), (1, 0), (0, -1), (0, 1)]"

fun collect_neighbors ::
  "maze_grid \<Rightarrow> cell \<Rightarrow> (int \<times> int) list \<Rightarrow> cell list \<Rightarrow> error + cell list" where
  "collect_neighbors m pos [] neighbors = Inr neighbors"
| "collect_neighbors m pos (d # ds) neighbors =
     (let new_pos = (fst pos + fst d, snd pos + snd d)
      in case is_valid m new_pos of
           Inl e \<Rightarrow> Inl e
         | Inr ok \<Rightarrow>
            collect_neighbors m pos ds (if ok then neighbors @ [new_pos] else neighbors))"

definition get_neighbors :: "maze_grid \<Rightarrow> cell \<Rightarrow> error + cell list" where
  "get_neighbors m pos = collect_neighbors m pos directions []"

subsection \<open>The heuristic\<close>

definition manhattan_distance :: "cell \<Rightarrow> cell \<Rightarrow> int" where
  "manhattan_distance pos1 pos2 = \<bar>fst pos1 - fst pos2\<bar> + \<bar>snd pos1 - snd pos2\<bar>"

subsection \<open>The priority queue\<close>

text \<open>
  A frontier entry is the tuple \<open>(f_score, counter, position)\<close>. Python compares tuples
  lexicographically; \<open>heappop\<close> removes and returns the least entry of the heap. The heap
  is modelled by the list of its entries: \<open>heappush\<close> adds one, \<open>heappop\<close> takes the
  least one out.
\<close>

type_synonym entry = "score \<times> int \<times> cell"

fun entry_less :: "entry \<Rightarrow> entry \<Rightarrow> bool" where
  "entry_less (f1, n1, p1) (f2, n2, p2) =
     (score_less f1 f2 \<or>
      (f1 = f2 \<and> (n1 < n2 \<or>
         (n1 = n2 \<and> (fst p1 < fst p2 \<or> (fst p1 = fst p2 \<and> snd p1 < snd p2))))))"

fun heap_min :: "entry \<Rightarrow> entry list \<Rightarrow> entry" where
  "heap_min e [] = e"
| "heap_min e (x # xs) = heap_min (if entry_less x e then x else e) xs"

definition heappush :: "entry list \<Rightarrow> entry \<Rightarrow> entry list" where
  "heappush h e = h @ [e]"

definition heappop :: "entry list \<Rightarrow> (entry \<times> entry list) option" where
  "heappop h =
     (case h of
        [] \<Rightarrow> None
      | x # xs \<Rightarrow> (let e = heap_min x xs in Some (e, remove1 e h)))"

subsection \<open>reconstruct_path\<close>

text \<open>
  The loop \<open>while current in came_from\<close> appends predecessors; it has no bound of its
  own, so not returning is the value \<open>None\<close>.
\<close>

partial_function (option) reconstruct_loop ::
  "(cell \<rightharpoonup> cell) \<Rightarrow> cell \<Rightarrow> cell list \<Rightarrow> cell list option" where
  "reconstruct_loop cf current path =
     (case cf current of
        None \<Rightarrow> Some (rev path)
      | Some p \<Rightarrow> reconstruct_loop cf p (path @ [p]))"

definition reconstruct_path :: "(cell \<rightharpoonup> cell) \<Rightarrow> cell \<Rightarrow> cell list option" where
  "reconstruct_path cf current = reconstruct_loop cf current [current]"

subsection \<open>a_star_search\<close>

text \<open>
  The local variables of \<open>a_star_search\<close>. The two \<open>defaultdict\<close>s are total functions
  whose default is \<open>Inf\<close>.
\<close>

record search_state =
  open_set :: "entry list"
  counter :: int
  came_from :: "cell \<rightharpoonup> cell"
  g_score :: "cell \<Rightarrow> score"
  f_score :: "cell \<Rightarrow> score"
  open_set_hash :: "cell set"

definition init_state :: "maze_grid \<Rightarrow> search_state" where
  "init_state m =
     \<lparr>open_set = heappush [] (Fin 0, 0, start m),
      counter = 0,
      came_from = Map.empty,
      g_score = (\<lambda>_. Inf)(start m := Fin 0),
      f_score = (\<lambda>_. Inf)(start m := Fin (manhattan_distance (start m) (goal m))),
      open_set_hash = {start m}\<rparr>"

text \<open>The body of \<open>for neighbor in maze.get_neighbors(current)\<close>.\<close>

definition relax :: "cell \<Rightarrow> cell \<Rightarrow> cell \<Rightarrow> search_state \<Rightarrow> search_state" where
  "relax gl current neighbor s =
     (let tentative_g_score = score_plus (g_score s current) 1
      in if score_less tentative_g_score (g_score s neighbor)
         then
           (let fn = score_plus tentative_g_score (manhattan_distance neighbor gl);
                s1 = s\<lparr>came_from := (came_from s)(neighbor \<mapsto> current),
                       g_score := (g_score s)(neighbor := tentative_g_score),
                       f_score := (f_score s)(neighbor := fn)\<rparr>
            in if neighbor \<notin> open_set_hash s1
               then s1\<lparr>counter := counter s1 + 1,
                       open_set := heappush (open_set s1) (fn, counter s1 + 1, neighbor),
                       open_set_hash := insert neighbor (open_set_hash s1)\<rparr>
               else s1)
         else s)"

text \<open>
  The \<open>while open_set\<close> loop. The outer \<open>option\<close> is \<open>None\<close> when the loop does not
  return; inside, \<open>Inl\<close> is a raised exception, \<open>Inr None\<close> the result \<open>None\<close> and
  \<open>Inr (Some path)\<close> a returned path.
\<close>

partial_function (option) search_loop ::
  "maze_grid \<Rightarrow> search_state \<Rightarrow> (error + cell list option) option" where
  "search_loop m s =
     (case heappop (open_set s) of
        None \<Rightarrow> Some (Inr None)
      | Some (e, rest) \<Rightarrow>
         (let current = snd (snd e);
              s1 = s\<lparr>open_set := rest, open_set_hash := open_set_hash s - {current}\<rparr>
          in if current = goal m
             then map_option (\<lambda>p. Inr (Some p)) (reconstruct_path (came_from s1) current)
             else (case get_neighbors m current of
                     Inl err \<Rightarrow> Some (Inl err)
                   | Inr ns \<Rightarrow> search_loop m (fold (relax (goal m) current) ns s1))))"

definition a_star_search :: "maze_grid \<Rightarrow> (error + cell list option) option" where
  "a_star_search m = search_loop m (init_state m)"

subsection \<open>Vocabulary of the specification\<close>

text \<open>
  A cell is in bounds when it lies in \<open>[0, rows) \<times> [0, cols)\<close>; its marker is the stored
  character; it is passable when it is in bounds and its marker is not the wall \<open>#\<close>.
\<close>

definition in_bounds :: "maze_grid \<Rightarrow> cell \<Rightarrow> bool" where
  "in_bounds m pos = (0 \<le> fst pos \<and> fst pos < rows m \<and> 0 \<le> snd pos \<and> snd pos < cols m)"

definition marker :: "maze_grid \<Rightarrow> cell \<Rightarrow> char" where
  "marker m pos = grid m ! nat (fst pos) ! nat (snd pos)"

definition passable :: "maze_grid \<Rightarrow> cell \<Rightarrow> bool" where
  "passable m pos = (in_bounds m pos \<and> marker m pos \<noteq> CHR ''#'')"

text \<open>The column count the constructor computes, \<open>len(grid[0]) if grid else 0\<close>.\<close>

definition width :: "char list list \<Rightarrow> nat" where
  "width g = (case g of [] \<Rightarrow> 0 | row0 # _ \<Rightarrow> length row0)"

text \<open>A rectangular matrix: every row is as long as the first one.\<close>

definition rectangular :: "char list list \<Rightarrow> bool" where
  "rectangular g = list_all (\<lambda>row. length row = width g) g"

text \<open>A grid object whose \<open>rows\<close> and \<open>cols\<close> fields describe a rectangular matrix.\<close>

definition well_formed :: "maze_grid \<Rightarrow> bool" where
  "well_formed m =
     (rows m = int (length (grid m)) \<and> list_all (\<lambda>row. int (length row) = cols m) (grid m))"

text \<open>The markers that occur in a matrix.\<close>

definition cells :: "char list list \<Rightarrow> char set" where
  "cells g = set (concat g)"

text \<open>
  Row-major order on cells, and the first occurrence of a marker in that order: the cell
  holds the marker, and every scanned cell before it holds another one.
\<close>

definition row_major_before :: "cell \<Rightarrow> cell \<Rightarrow> bool" where
  "row_major_before a b = (fst a < fst b \<or> (fst a = fst b \<and> snd a < snd b))"

definition first_occurrence :: "char list list \<Rightarrow> int \<Rightarrow> int \<Rightarrow> char \<Rightarrow> cell \<Rightarrow> bool" where
  "first_occurrence g nrows ncols symbol p =
     (0 \<le> fst p \<and> fst p < nrows \<and> 0 \<le> snd p \<and> snd p < ncols \<and>
      grid_at g (fst p) (snd p) = Inr symbol \<and>
      (\<forall>r c. 0 \<le> r \<and> 0 \<le> c \<and> c < ncols \<and> row_major_before (r, c) p \<longrightarrow>
         (\<exists>x. grid_at g r c = Inr x \<and> x \<noteq> symbol)))"

text \<open>
  One orthogonal step: the two cells differ by exactly one unit in exactly one
  coordinate.
\<close>

definition orthogonal_step :: "cell \<Rightarrow> cell \<Rightarrow> bool" where
  "orthogonal_step a b =
     ((\<bar>fst a - fst b\<bar> = 1 \<and> snd a = snd b) \<or> (fst a = fst b \<and> \<bar>snd a - snd b\<bar> = 1))"

text \<open>
  Reachability under unit-cost orthogonal moves over passable cells, and the reference
  breadth-first search of the specification: it explores level by level from the start
  cell and returns the number of the level on which the goal first appears.
\<close>

definition step_rel :: "maze_grid \<Rightarrow> (cell \<times> cell) set" where
  "step_rel m = {(a, b). manhattan_distance a b = 1 \<and> passable m b}"

definition connected :: "maze_grid \<Rightarrow> bool" where
  "connected m = ((start m, goal m) \<in> (step_rel m)\<^sup>*)"

definition neighbors_of :: "maze_grid \<Rightarrow> cell \<Rightarrow> cell list" where
  "neighbors_of m c =
     filter (passable m) [(fst c - 1, snd c), (fst c + 1, snd c), (fst c, snd c - 1), (fst c, snd c + 1)]"

fun bfs_levels :: "maze_grid \<Rightarrow> nat \<Rightarrow> cell list \<Rightarrow> cell list \<Rightarrow> nat \<Rightarrow> nat option" where
  "bfs_levels m 0 frontier seen d = None"
| "bfs_levels m (Suc fuel) frontier seen d =
     (if frontier = [] then None
      else if goal m \<in> set frontier then Some d
      else (let nxt = remdups (filter (\<lambda>n. n \<notin> set seen) (concat (map (neighbors_of m) frontier)))
            in bfs_levels m fuel nxt (seen @ nxt) (Suc d)))"

definition bfs_distance :: "maze_grid \<Rightarrow> nat option" where
  "bfs_distance m = bfs_levels m (Suc (nat (rows m * cols m))) [start m] [start m] 0"

subsection \<open>Vocabulary of the analysis of the search\<close>

text \<open>\<open>b\<close> is one of the cells \<open>get_neighbors\<close> returns for \<open>a\<close>.\<close>

definition adjacent :: "maze_grid \<Rightarrow> cell \<Rightarrow> cell \<Rightarrow> bool" where
  "adjacent m a b = (case get_neighbors m a of Inl _ \<Rightarrow> False | Inr ns \<Rightarrow> b \<in> set ns)"

text \<open>
  A list of cells in which each cell is a neighbour of the one before it, and a path as
  the search is to return it: from start to goal.
\<close>

fun walk :: "maze_grid \<Rightarrow> cell list \<Rightarrow> bool" where
  "walk m [] = True"
| "walk m [a] = True"
| "walk m (a # b # rest) = (adjacent m a b \<and> walk m (b # rest))"

definition good_path :: "maze_grid \<Rightarrow> cell list \<Rightarrow> bool" where
  "good_path m p = (p \<noteq> [] \<and> hd p = start m \<and> last p = goal m \<and> walk m p)"

definition good_result :: "maze_grid \<Rightarrow> error + cell list option \<Rightarrow> bool" where
  "good_result m r =
     (case r of Inl e \<Rightarrow> \<not> well_formed m | Inr None \<Rightarrow> True | Inr (Some p) \<Rightarrow> good_path m p)"

text \<open>
  The chain of predecessors that \<open>reconstruct_path\<close> follows from a cell until a cell
  with no entry in \<open>came_from\<close>.
\<close>

fun is_chain :: "(cell \<rightharpoonup> cell) \<Rightarrow> cell \<Rightarrow> cell list \<Rightarrow> bool" where
  "is_chain cf c [] = (cf c = None)"
| "is_chain cf c (x # xs) = (cf c = Some x \<and> is_chain cf x xs)"

text \<open>
  The invariant of the search: start has cost \<open>0\<close> and no predecessor, costs are not
  negative, every other cell with a finite cost has a predecessor, a predecessor has a
  strictly smaller cost and is a grid neighbour, and every cell in the heap has a finite
  cost.
\<close>

definition search_inv :: "maze_grid \<Rightarrow> search_state \<Rightarrow> bool" where
  "search_inv m s =
     (g_score s (start m) = Fin 0 \<and>
      (\<forall>c k. g_score s c = Fin k \<longrightarrow> 0 \<le> k) \<and>
      came_from s (start m) = None \<and>
      (\<forall>c. c \<noteq> start m \<longrightarrow> (came_from s c = None \<longleftrightarrow> g_score s c = Inf)) \<and>
      (\<forall>c p. came_from s c = Some p \<longrightarrow>
         (\<exists>a b. g_score s p = Fin a \<and> g_score s c = Fin b \<and> a < b)) \<and>
      (\<forall>e\<in>set (open_set s). g_score s (snd (snd e)) \<noteq> Inf) \<and>
      (\<forall>c p. came_from s c = Some p \<longrightarrow> adjacent m p c))"

text \<open>
  The states of a run. \<open>loop_head\<close> holds of the states in which the condition of
  \<open>while open_set\<close> is evaluated; \<open>run_state\<close> adds the state after the pop and the
  states between two rounds of the \<open>for\<close> loop.
\<close>

inductive loop_head :: "maze_grid \<Rightarrow> search_state \<Rightarrow> bool" for m where
  first: "loop_head m (init_state m)"
| again: "\<lbrakk>loop_head m s; heappop (open_set s) = Some (e, rest); snd (snd e) \<noteq> goal m;
           get_neighbors m (snd (snd e)) = Inr ns\<rbrakk>
          \<Longrightarrow> loop_head m (fold (relax (goal m) (snd (snd e))) ns
                (s\<lparr>open_set := rest, open_set_hash := open_set_hash s - {snd (snd e)}\<rparr>))"

inductive run_state :: "maze_grid \<Rightarrow> search_state \<Rightarrow> bool" for m where
  at_head: "loop_head m s \<Longrightarrow> run_state m s"
| after_pop: "\<lbrakk>loop_head m s; heappop (open_set s) = Some (e, rest)\<rbrakk>
          \<Longrightarrow> run_state m (s\<lparr>open_set := rest, open_set_hash := open_set_hash s - {snd (snd e)}\<rparr>)"
| in_for: "\<lbrakk>loop_head m s; heappop (open_set s) = Some (e, rest); snd (snd e) \<noteq> goal m;
           get_neighbors m (snd (snd e)) = Inr ns; k \<le> length ns\<rbrakk>
          \<Longrightarrow> run_state m (fold (relax (goal m) (snd (snd e))) (take k ns)
                (s\<lparr>open_set := rest, open_set_hash := open_set_hash s - {snd (snd e)}\<rparr>))"

text \<open>
  The quantities that decrease: the number of cells of the grid (with the start cell)
  whose cost is still infinite, the sum of the finite costs, and the size of the heap.
\<close>

definition region :: "maze_grid \<Rightarrow> cell set" where
  "region m = {c. in_bounds m c} \<union> {start m}"

definition unseen :: "maze_grid \<Rightarrow> search_state \<Rightarrow> nat" where
  "unseen m s = card {c \<in> region m. g_score s c = Inf}"

definition cost :: "score \<Rightarrow> nat" where
  "cost x = (case x of Fin k \<Rightarrow> nat k | Inf \<Rightarrow> 0)"

definition total_g :: "maze_grid \<Rightarrow> search_state \<Rightarrow> nat" where
  "total_g m s = (\<Sum>c\<in>region m. cost (g_score s c))"

definition progress :: "maze_grid \<Rightarrow> search_state \<Rightarrow> search_state \<Rightarrow> bool" where
  "progress m s' s =
     (unseen m s' < unseen m s \<or> (unseen m s' = unseen m s \<and> total_g m s' < total_g m s))"

definition search_rel :: "maze_grid \<Rightarrow> (search_state \<times> search_state) set" where
  "search_rel m =
     inv_image (less_than <*lex*> less_than <*lex*> less_than)
       (\<lambda>s. (unseen m s, total_g m s, length (open_set s)))"

subsection \<open>Example grids\<close>

text \<open>The 3 by 3 scenario of the specification.\<close>

definition demo :: maze_grid where
  "demo = \<lparr>grid = [''S #'', ''# #'', ''# G''], rows = 3, cols = 3, start = (0, 0), goal = (2, 2)\<rparr>"

text \<open>Both markers occur twice.\<close>

definition dup :: maze_grid where
  "dup = \<lparr>grid = [''GS'', ''SG''], rows = 2, cols = 2, start = (0, 1), goal = (0, 0)\<rparr>"

text \<open>Markers outside the documented alphabet.\<close>

definition odd_markers :: maze_grid where
  "odd_markers = \<lparr>grid = [''S x'', '' yG''], rows = 2, cols = 3, start = (0, 0), goal = (1, 2)\<rparr>"

text \<open>A grid object whose start and goal fields name the same cell.\<close>

definition same_cell :: maze_grid where
  "same_cell = \<lparr>grid = [''S '', '' #''], rows = 2, cols = 2, start = (0, 0), goal = (0, 0)\<rparr>"

text \<open>The smallest constructible grid.\<close>

definition two_cells :: maze_grid where
  "two_cells = \<lparr>grid = [''SG''], rows = 1, cols = 2, start = (0, 0), goal = (0, 1)\<rparr>"

text \<open>A wall row separates start and goal.\<close>

definition wall_row :: maze_grid where
  "wall_row = \<lparr>grid = [''S '', ''##'', '' G''], rows = 3, cols = 2, start = (0, 0), goal = (2, 1)\<rparr>"

text \<open>A grid with two routes from start to goal, of 11 and of 13 steps.\<close>

definition detour :: maze_grid where
  "detour = \<lparr>grid = [''G#    ##'', '' # ##   '', ''   #  #S'', ''##      ''],
             rows = 4, cols = 8, start = (2, 7), goal = (0, 0)\<rparr>"

text \<open>
  The state of the run on \<open>demo\<close> after the first pop and the first round of the
  \<open>for\<close> loop.
\<close>

definition demo_second :: search_state where
  "demo_second = fold (relax (goal demo) (0, 0)) [(0, 1)]
     ((init_state demo)\<lparr>open_set := [],
        open_set_hash := open_set_hash (init_state demo) - {(0, 0)}\<rparr>)"

text \<open>The two loops have code equations, so that concrete runs can be evaluated.\<close>

declare search_loop.simps [code]

declare reconstruct_loop.simps [code]

section \<open>Properties of the grid\<close>

subsection \<open>Passability and neighbours\<close>

lemma grid_at_in_bounds:
  assumes "well_formed m" "in_bounds m pos"
  shows "grid_at (grid m) (fst pos) (snd pos) = Inr (marker m pos)"
proof -
  from assms have r: "nat (fst pos) < length (grid m)" and r0: "0 \<le> fst pos" "fst pos < int (length (grid m))"
    by (auto simp: well_formed_def in_bounds_def)
  then have "grid m ! nat (fst pos) \<in> set (grid m)" by simp
  with assms have len: "int (length (grid m ! nat (fst pos))) = cols m"
    by (auto simp: well_formed_def list_all_iff)
  have 1: "py_index (grid m) (fst pos) = Inr (grid m ! nat (fst pos))"
    using r0 by (simp add: py_index_def)
  have 2: "py_index (grid m ! nat (fst pos)) (snd pos) = Inr (grid m ! nat (fst pos) ! nat (snd pos))"
    using assms(2) len by (simp add: py_index_def in_bounds_def)
  show ?thesis by (simp add: grid_at_def 1 2 marker_def)
qed

lemma is_valid_out_of_bounds: "\<not> in_bounds m pos \<Longrightarrow> is_valid m pos = Inr False"
  by (auto simp: is_valid_def in_bounds_def split: prod.splits)

lemma is_valid_well_formed:
  assumes "well_formed m"
  shows "is_valid m pos = Inr (passable m pos)"
proof (cases "in_bounds m pos")
  case True
  with grid_at_in_bounds[OF assms True] show ?thesis
    by (cases pos) (simp add: is_valid_def passable_def in_bounds_def)
next
  case False
  then show ?thesis by (simp add: is_valid_out_of_bounds passable_def)
qed

lemma get_neighbors_well_formed:
  assumes "well_formed m"
  shows "get_neighbors m (r, c) =
    Inr (filter (passable m) [(r - 1, c), (r + 1, c), (r, c - 1), (r, c + 1)])"
  by (simp add: get_neighbors_def directions_def is_valid_well_formed[OF assms] Let_def)

lemma manhattan_one:
  "manhattan_distance (r, c) q = 1 \<longleftrightarrow> q \<in> {(r - 1, c), (r + 1, c), (r, c - 1), (r, c + 1)}"
  by (cases q) (auto simp: manhattan_distance_def abs_if split: if_splits)

text \<open>
  Claim C7. On a grid object that describes a rectangular matrix, \<open>is_valid\<close> is true
  exactly for the cells that are in bounds and whose marker is not \<open>#\<close>, and
  \<open>get_neighbors\<close> returns the passable cells among up, down, left, right, in this order:
  these are exactly the passable cells one orthogonal step away. On any grid object
  whatever, a cell out of bounds is not valid, and no subscript is evaluated for it.
\<close>

theorem get_neighbors_is_valid_spec:
  assumes "well_formed m"
  shows "is_valid m pos = Inr (passable m pos) \<and>
         get_neighbors m (r, c) =
           Inr (filter (passable m) [(r - 1, c), (r + 1, c), (r, c - 1), (r, c + 1)]) \<and>
         (\<exists>ns. get_neighbors m (r, c) = Inr ns \<and>
               set ns = {q. manhattan_distance (r, c) q = 1 \<and> passable m q}) \<and>
         (\<forall>m' pos'. \<not> in_bounds m' pos' \<longrightarrow> is_valid m' pos' = Inr False)"
proof -
  have "set (filter (passable m) [(r - 1, c), (r + 1, c), (r, c - 1), (r, c + 1)])
        = {q. manhattan_distance (r, c) q = 1 \<and> passable m q}"
    unfolding manhattan_one by auto
  then show ?thesis
    using is_valid_well_formed[OF assms] get_neighbors_well_formed[OF assms]
      is_valid_out_of_bounds by simp
qed

theorem get_neighbors_is_valid_spec_witness:
  "well_formed demo \<and> is_valid demo (1, 1) = Inr True \<and> is_valid demo (1, 0) = Inr False \<and>
   get_neighbors demo (1, 1) = Inr [(0, 1), (2, 1)] \<and>
   \<not> in_bounds demo (-1, 0) \<and> is_valid demo (-1, 0) = Inr False"
  using get_neighbors_is_valid_spec[of demo "(1, 1)" 1 1]
    get_neighbors_is_valid_spec[of demo "(1, 0)" 1 1]
  by (simp add: well_formed_def demo_def passable_def in_bounds_def marker_def)

subsection \<open>The scan for the start and goal markers\<close>

lemma scan_cols_None:
  "scan_cols g symbol r cs = Inr None \<Longrightarrow>
     \<forall>c\<in>set cs. \<exists>x. grid_at g (int r) (int c) = Inr x \<and> x \<noteq> symbol"
  by (induction cs) (auto split: sum.splits if_splits)

lemma scan_cols_Some:
  "scan_cols g symbol r cs = Inr (Some p) \<Longrightarrow>
     \<exists>pre c post. cs = pre @ c # post \<and> p = (int r, int c) \<and>
        grid_at g (int r) (int c) = Inr symbol \<and>
        (\<forall>c'\<in>set pre. \<exists>x. grid_at g (int r) (int c') = Inr x \<and> x \<noteq> symbol)"
proof (induction cs)
  case Nil
  then show ?case by simp
next
  case (Cons a cs)
  show ?case
  proof (cases "grid_at g (int r) (int a)")
    case (Inl e)
    with Cons.prems show ?thesis by simp
  next
    case (Inr x)
    show ?thesis
    proof (cases "x = symbol")
      case True
      with Inr Cons.prems have "p = (int r, int a)" by simp
      with Inr True show ?thesis by (intro exI[of _ "[]"] exI[of _ a] exI[of _ cs]) simp
    next
      case False
      with Inr Cons.prems have "scan_cols g symbol r cs = Inr (Some p)" by simp
      from Cons.IH[OF this] obtain pre c post where
        h: "cs = pre @ c # post" "p = (int r, int c)" "grid_at g (int r) (int c) = Inr symbol"
           "\<forall>c'\<in>set pre. \<exists>x. grid_at g (int r) (int c') = Inr x \<and> x \<noteq> symbol"
        by blast
      with Inr False show ?thesis
        by (intro exI[of _ "a # pre"] exI[of _ c] exI[of _ post]) simp
    qed
  qed
qed

lemma upt_split:
  assumes "[0..<n] = pre @ c # post"
  shows "c < n \<and> set pre = {0..<c}"
proof -
  have len: "length pre < n" using arg_cong[OF assms, of length] by simp
  have "c = [0..<n] ! length pre" using assms by simp
  also have "\<dots> = length pre" using len by simp
  finally have c: "c = length pre" .
  have "pre = take (length pre) [0..<n]" using assms by simp
  also have "\<dots> = [0..<length pre]" using len by (simp add: take_upt)
  finally have "set pre = {0..<c}" using c by (metis atLeastLessThan_upt)
  with c len show ?thesis by simp
qed

lemma scan_rows_None:
  "scan_rows g symbol ncols rs = Inr None \<Longrightarrow>
     \<forall>r\<in>set rs. \<forall>c<ncols. \<exists>x. grid_at g (int r) (int c) = Inr x \<and> x \<noteq> symbol"
proof (induction rs)
  case Nil
  then show ?case by simp
next
  case (Cons a rs)
  from Cons.prems have a: "scan_cols g symbol a [0..<ncols] = Inr None"
    and rest: "scan_rows g symbol ncols rs = Inr None"
    by (auto split: sum.splits option.splits)
  from scan_cols_None[OF a] Cons.IH[OF rest] show ?case by auto
qed

lemma scan_rows_Some:
  "scan_rows g symbol ncols rs = Inr (Some p) \<Longrightarrow>
     \<exists>pre r post c. rs = pre @ r # post \<and> p = (int r, int c) \<and> c < ncols \<and>
        grid_at g (int r) (int c) = Inr symbol \<and>
        (\<forall>c'<c. \<exists>x. grid_at g (int r) (int c') = Inr x \<and> x \<noteq> symbol) \<and>
        (\<forall>r'\<in>set pre. \<forall>c'<ncols. \<exists>x. grid_at g (int r') (int c') = Inr x \<and> x \<noteq> symbol)"
proof (induction rs)
  case Nil
  then show ?case by simp
next
  case (Cons a rs)
  show ?case
  proof (cases "scan_cols g symbol a [0..<ncols]")
    case (Inl e)
    with Cons.prems show ?thesis by simp
  next
    case (Inr res)
    show ?thesis
    proof (cases res)
      case None
      with Inr Cons.prems have "scan_rows g symbol ncols rs = Inr (Some p)" by simp
      from Cons.IH[OF this] obtain pre r post c where
        h: "rs = pre @ r # post" "p = (int r, int c)" "c < ncols"
           "grid_at g (int r) (int c) = Inr symbol"
           "\<forall>c'<c. \<exists>x. grid_at g (int r) (int c') = Inr x \<and> x \<noteq> symbol"
           "\<forall>r'\<in>set pre. \<forall>c'<ncols. \<exists>x. grid_at g (int r') (int c') = Inr x \<and> x \<noteq> symbol"
        by blast
      from Inr None have "scan_cols g symbol a [0..<ncols] = Inr None" by simp
      from scan_cols_None[OF this]
      have "\<forall>c'<ncols. \<exists>x. grid_at g (int a) (int c') = Inr x \<and> x \<noteq> symbol" by simp
      with h show ?thesis
        by (intro exI[of _ "a # pre"] exI[of _ r] exI[of _ post] exI[of _ c]) simp
    next
      case (Some q)
      with Inr Cons.prems have pq: "p = q" by simp
      from Inr Some pq have "scan_cols g symbol a [0..<ncols] = Inr (Some p)" by simp
      from scan_cols_Some[OF this] obtain pre c post where
        h: "[0..<ncols] = pre @ c # post" "p = (int a, int c)"
           "grid_at g (int a) (int c) = Inr symbol"
           "\<forall>c'\<in>set pre. \<exists>x. grid_at g (int a) (int c') = Inr x \<and> x \<noteq> symbol"
        by blast
      from upt_split[OF h(1)] have "c < ncols" "set pre = {0..<c}" by simp_all
      with h show ?thesis
        by (intro exI[of _ "[]"] exI[of _ a] exI[of _ rs] exI[of _ c]) simp
    qed
  qed
qed

lemma find_position_first:
  assumes "find_position g nrows ncols symbol = Inr (Some p)"
  shows "first_occurrence g (int nrows) (int ncols) symbol p"
proof -
  from assms have "scan_rows g symbol ncols [0..<nrows] = Inr (Some p)"
    by (simp add: find_position_def)
  from scan_rows_Some[OF this] obtain pre r post c where
    h: "[0..<nrows] = pre @ r # post" "p = (int r, int c)" "c < ncols"
       "grid_at g (int r) (int c) = Inr symbol"
       "\<forall>c'<c. \<exists>x. grid_at g (int r) (int c') = Inr x \<and> x \<noteq> symbol"
       "\<forall>r'\<in>set pre. \<forall>c'<ncols. \<exists>x. grid_at g (int r') (int c') = Inr x \<and> x \<noteq> symbol"
    by blast
  from upt_split[OF h(1)] have r: "r < nrows" "set pre = {0..<r}" by simp_all
  have "\<exists>x. grid_at g r' c' = Inr x \<and> x \<noteq> symbol"
    if b: "0 \<le> r'" "0 \<le> c'" "c' < int ncols" "row_major_before (r', c') p" for r' c'
  proof (cases "r' < int r")
    case True
    with b r have "nat r' \<in> set pre" "nat c' < ncols" by auto
    with h(6) have "\<exists>x. grid_at g (int (nat r')) (int (nat c')) = Inr x \<and> x \<noteq> symbol" by blast
    with b show ?thesis by simp
  next
    case False
    with b h(2) have "r' = int r" "nat c' < c" by (auto simp: row_major_before_def)
    with h(5) have "\<exists>x. grid_at g (int r) (int (nat c')) = Inr x \<and> x \<noteq> symbol" by blast
    with b \<open>r' = int r\<close> show ?thesis by simp
  qed
  with h r show ?thesis by (simp add: first_occurrence_def)
qed

lemma MazeGrid_Inr:
  assumes "MazeGrid g = Inr m"
  shows "grid m = g" "rows m = int (length g)" "cols m = int (width g)"
    "find_position g (length g) (width g) (CHR ''S'') = Inr (Some (start m))"
    "find_position g (length g) (width g) (CHR ''G'') = Inr (Some (goal m))"
  using assms unfolding MazeGrid_def width_def Let_def
  by (auto split: sum.splits option.splits)

text \<open>
  Claim C8. When construction succeeds, the start cell is the first occurrence of \<open>S\<close>
  in row-major scan order and the goal cell is the first occurrence of \<open>G\<close>; later
  occurrences play no part.
\<close>

theorem first_occurrence_wins:
  assumes "MazeGrid g = Inr m"
  shows "first_occurrence g (rows m) (cols m) (CHR ''S'') (start m) \<and>
         first_occurrence g (rows m) (cols m) (CHR ''G'') (goal m)"
  using find_position_first[OF MazeGrid_Inr(4)[OF assms]]
    find_position_first[OF MazeGrid_Inr(5)[OF assms]]
    MazeGrid_Inr(2,3)[OF assms]
  by simp

lemma MazeGrid_dup: "MazeGrid [''GS'', ''SG''] = Inr dup"
  by (simp add: MazeGrid_def find_position_def grid_at_def py_index_def dup_def upt_rec)

theorem first_occurrence_wins_witness:
  "MazeGrid [''GS'', ''SG''] = Inr dup \<and> start dup = (0, 1) \<and> goal dup = (0, 0) \<and>
   first_occurrence [''GS'', ''SG''] 2 2 (CHR ''S'') (0, 1) \<and>
   first_occurrence [''GS'', ''SG''] 2 2 (CHR ''G'') (0, 0) \<and>
   row_major_before (0, 0) (0, 1) \<and>
   (\<exists>x. grid_at [''GS'', ''SG''] 0 0 = Inr x \<and> x \<noteq> CHR ''S'') \<and>
   grid_at [''GS'', ''SG''] 1 0 = Inr (CHR ''S'')"
proof -
  from first_occurrence_wins[OF MazeGrid_dup]
  have f: "first_occurrence [''GS'', ''SG''] 2 2 (CHR ''S'') (0, 1)"
    and g: "first_occurrence [''GS'', ''SG''] 2 2 (CHR ''G'') (0, 0)"
    by (simp_all add: dup_def)
  have b: "row_major_before (0, 0) (0, 1)" by (simp add: row_major_before_def)
  from f b have "\<exists>x. grid_at [''GS'', ''SG''] 0 0 = Inr x \<and> x \<noteq> CHR ''S''"
    unfolding first_occurrence_def by (elim conjE allE[of _ 0] impE) simp_all
  moreover have "grid_at [''GS'', ''SG''] 1 0 = Inr (CHR ''S'')"
    by (simp add: grid_at_def py_index_def)
  ultimately show ?thesis using f g b MazeGrid_dup by (simp add: dup_def)
qed

subsection \<open>When construction fails\<close>

lemma rectangular_row: "rectangular g \<Longrightarrow> r < length g \<Longrightarrow> length (g ! r) = width g"
  by (simp add: rectangular_def list_all_iff)

lemma grid_at_rect:
  assumes "rectangular g" "r < length g" "c < width g"
  shows "grid_at g (int r) (int c) = Inr (g ! r ! c)"
  using assms rectangular_row[OF assms(1,2)]
  by (simp add: grid_at_def py_index_def)

lemma scan_cols_rect:
  assumes "rectangular g" "r < length g" "\<forall>c\<in>set cs. c < width g"
  shows "\<exists>res. scan_cols g symbol r cs = Inr res \<and>
           (res = None \<longleftrightarrow> (\<forall>c\<in>set cs. g ! r ! c \<noteq> symbol))"
  using assms(3)
proof (induction cs)
  case Nil
  then show ?case by simp
next
  case (Cons a cs)
  then have "grid_at g (int r) (int a) = Inr (g ! r ! a)"
    using grid_at_rect[OF assms(1,2)] by simp
  with Cons show ?case by auto
qed

lemma row_has_symbol: "(\<forall>c\<in>set [0..<length row]. row ! c \<noteq> symbol) \<longleftrightarrow> symbol \<notin> set row"
  by (auto simp: in_set_conv_nth)

lemma scan_rows_rect:
  assumes "rectangular g" "\<forall>r\<in>set rs. r < length g"
  shows "\<exists>res. scan_rows g symbol (width g) rs = Inr res \<and>
           (res = None \<longleftrightarrow> (\<forall>r\<in>set rs. symbol \<notin> set (g ! r)))"
  using assms(2)
proof (induction rs)
  case Nil
  then show ?case by simp
next
  case (Cons a rs)
  then have a: "a < length g" by simp
  from scan_cols_rect[OF assms(1) a, of "[0..<width g]" symbol]
  obtain res where res: "scan_cols g symbol a [0..<width g] = Inr res"
    "res = None \<longleftrightarrow> (\<forall>c\<in>set [0..<width g]. g ! a ! c \<noteq> symbol)" by auto
  have "res = None \<longleftrightarrow> symbol \<notin> set (g ! a)"
    using res(2) row_has_symbol[of "g ! a" symbol] rectangular_row[OF assms(1) a] by simp
  with res(1) Cons show ?case by (cases res) auto
qed

lemma find_position_rect:
  assumes "rectangular g"
  shows "\<exists>res. find_position g (length g) (width g) symbol = Inr res \<and>
           (res = None \<longleftrightarrow> symbol \<notin> cells g)"
proof -
  from scan_rows_rect[OF assms, of "[0..<length g]" symbol]
  obtain res where res: "scan_rows g symbol (width g) [0..<length g] = Inr res"
    "res = None \<longleftrightarrow> (\<forall>r\<in>set [0..<length g]. symbol \<notin> set (g ! r))" by auto
  have "(\<forall>r\<in>set [0..<length g]. symbol \<notin> set (g ! r)) \<longleftrightarrow> symbol \<notin> cells g"
    by (auto simp: cells_def all_set_conv_all_nth[of g "\<lambda>row. symbol \<notin> set row"])
  with res show ?thesis by (simp add: find_position_def)
qed

lemma MazeGrid_width: "MazeGrid g =
  (case find_position g (length g) (width g) (CHR ''S'') of
           Inl e \<Rightarrow> Inl e
         | Inr start_pos \<Rightarrow>
            (case find_position g (length g) (width g) (CHR ''G'') of
               Inl e \<Rightarrow> Inl e
             | Inr goal_pos \<Rightarrow>
                (case start_pos of
                   None \<Rightarrow> Inl (ValueError (CHR ''S''))
                 | Some s \<Rightarrow>
                    (case goal_pos of
                       None \<Rightarrow> Inl (ValueError (CHR ''G''))
                     | Some t \<Rightarrow>
                        Inr \<lparr>grid = g, rows = int (length g), cols = int (width g),
                             start = s, goal = t\<rparr>))))"
  unfolding MazeGrid_def width_def Let_def ..

lemma empty_cells: "length g = 0 \<or> width g = 0 \<Longrightarrow> rectangular g \<Longrightarrow> cells g = {}"
  by (auto simp: cells_def width_def rectangular_def list_all_iff split: list.splits)

text \<open>
  Claim C5, as the code has it. The constructor checks no alphabet. On a rectangular
  matrix it raises \<open>ValueError\<close> exactly when \<open>S\<close> does not occur, or \<open>S\<close> occurs and
  \<open>G\<close> does not; it returns a grid exactly when both occur, whatever the other markers
  are. A matrix with no rows or no columns holds no \<open>S\<close> and is refused.
\<close>

theorem construction_fails_iff_marker_missing:
  assumes "rectangular g"
  shows "(MazeGrid g = Inl (ValueError (CHR ''S'')) \<longleftrightarrow> CHR ''S'' \<notin> cells g) \<and>
         (MazeGrid g = Inl (ValueError (CHR ''G'')) \<longleftrightarrow>
            CHR ''S'' \<in> cells g \<and> CHR ''G'' \<notin> cells g) \<and>
         ((\<exists>m. MazeGrid g = Inr m) \<longleftrightarrow> CHR ''S'' \<in> cells g \<and> CHR ''G'' \<in> cells g) \<and>
         (length g = 0 \<or> width g = 0 \<longrightarrow> MazeGrid g = Inl (ValueError (CHR ''S'')))"
proof -
  from find_position_rect[OF assms, of "CHR ''S''"] obtain rs where
    rs: "find_position g (length g) (width g) (CHR ''S'') = Inr rs"
        "rs = None \<longleftrightarrow> CHR ''S'' \<notin> cells g" by blast
  from find_position_rect[OF assms, of "CHR ''G''"] obtain rg where
    rg: "find_position g (length g) (width g) (CHR ''G'') = Inr rg"
        "rg = None \<longleftrightarrow> CHR ''G'' \<notin> cells g" by blast
  have e: "length g = 0 \<or> width g = 0 \<longrightarrow> CHR ''S'' \<notin> cells g"
    using empty_cells[OF _ assms] by auto
  show ?thesis
    using rs rg e by (cases rs; cases rg) (auto simp: MazeGrid_width)
qed

theorem construction_fails_iff_marker_missing_witness:
  "rectangular [''S x'', '' yG''] \<and> rectangular [''  '', ''#G''] \<and> rectangular [[]] \<and>
   (\<exists>m. MazeGrid [''S x'', '' yG''] = Inr m) \<and>
   MazeGrid [''  '', ''#G''] = Inl (ValueError (CHR ''S'')) \<and>
   MazeGrid [[]] = Inl (ValueError (CHR ''S''))"
  using construction_fails_iff_marker_missing[of "[''S x'', '' yG'']"]
    construction_fails_iff_marker_missing[of "[''  '', ''#G'']"]
    construction_fails_iff_marker_missing[of "[[]]"]
  by (simp add: rectangular_def cells_def width_def)

text \<open>
  Claim C5 as stated fails: a matrix that holds the marker \<open>x\<close>, which is outside the
  alphabet, is accepted.
\<close>

theorem no_alphabet_check_counterexample:
  "CHR ''x'' \<notin> {CHR ''S'', CHR ''G'', CHR ''#'', CHR '' ''} \<and>
   MazeGrid [''SxG''] =
     Inr \<lparr>grid = [''SxG''], rows = 1, cols = 3, start = (0, 0), goal = (0, 2)\<rparr>"
  by (simp add: MazeGrid_def find_position_def grid_at_def py_index_def upt_rec)

subsection \<open>Markers other than the wall\<close>

lemma first_occurrence_valid:
  assumes "first_occurrence (grid m) (rows m) (cols m) symbol p" "symbol \<noteq> CHR ''#''"
  shows "is_valid m p = Inr True"
  using assms by (cases p) (auto simp: first_occurrence_def is_valid_def)

text \<open>
  Claim C9. In a constructed grid the start cell and the goal cell are valid, and so is
  every in-bounds cell whose marker is any character other than \<open>#\<close>.
\<close>

theorem non_wall_markers_are_passable:
  assumes "MazeGrid g = Inr m"
  shows "is_valid m (start m) = Inr True \<and> is_valid m (goal m) = Inr True \<and>
         (\<forall>pos x. in_bounds m pos \<and> grid_at (grid m) (fst pos) (snd pos) = Inr x \<and> x \<noteq> CHR ''#''
            \<longrightarrow> is_valid m pos = Inr True)"
proof -
  have g: "grid m = g" by (rule MazeGrid_Inr(1)[OF assms])
  from find_position_first[OF MazeGrid_Inr(4)[OF assms]]
  have s: "first_occurrence (grid m) (rows m) (cols m) (CHR ''S'') (start m)"
    using MazeGrid_Inr(2,3)[OF assms] g by simp
  from find_position_first[OF MazeGrid_Inr(5)[OF assms]]
  have t: "first_occurrence (grid m) (rows m) (cols m) (CHR ''G'') (goal m)"
    using MazeGrid_Inr(2,3)[OF assms] g by simp
  have "is_valid m pos = Inr True"
    if "in_bounds m pos" "grid_at (grid m) (fst pos) (snd pos) = Inr x" "x \<noteq> CHR ''#''" for pos x
    using that by (cases pos) (simp add: is_valid_def in_bounds_def)
  with first_occurrence_valid[OF s] first_occurrence_valid[OF t] show ?thesis by simp
qed

lemma MazeGrid_odd_markers: "MazeGrid [''S x'', '' yG''] = Inr odd_markers"
  by (simp add: MazeGrid_def find_position_def grid_at_def py_index_def odd_markers_def upt_rec)

theorem non_wall_markers_are_passable_witness:
  "MazeGrid [''S x'', '' yG''] = Inr odd_markers \<and>
   is_valid odd_markers (0, 0) = Inr True \<and> is_valid odd_markers (1, 2) = Inr True \<and>
   in_bounds odd_markers (0, 2) \<and> grid_at (grid odd_markers) 0 2 = Inr (CHR ''x'') \<and>
   is_valid odd_markers (0, 2) = Inr True"
  using non_wall_markers_are_passable[OF MazeGrid_odd_markers] MazeGrid_odd_markers
  by (simp add: odd_markers_def in_bounds_def grid_at_def py_index_def)

section \<open>Properties of the search\<close>

subsection \<open>Initialisation\<close>

lemma init_state_fields:
  "open_set (init_state m) = [(Fin 0, 0, start m)] \<and> counter (init_state m) = 0 \<and>
   came_from (init_state m) = Map.empty \<and>
   g_score (init_state m) (start m) = Fin 0 \<and>
   f_score (init_state m) (start m) = Fin (manhattan_distance (start m) (goal m)) \<and>
   open_set_hash (init_state m) = {start m}"
  by (simp add: init_state_def heappush_def)

text \<open>
  Claim C4. On the grid \<open>SG\<close> the entry pushed for the start cell has priority \<open>0\<close> and
  sequence number \<open>0\<close>, while \<open>f_score[start]\<close> is the Manhattan distance \<open>1\<close>; the
  \<open>g_score\<close> of start is \<open>0\<close> and start is in \<open>open_set_hash\<close>.
\<close>

theorem initial_entry_priority_zero:
  "MazeGrid [''SG''] = Inr two_cells \<and>
   open_set (init_state two_cells) = [(Fin 0, 0, (0, 0))] \<and>
   f_score (init_state two_cells) (0, 0) = Fin 1 \<and>
   manhattan_distance (start two_cells) (goal two_cells) = 1 \<and>
   g_score (init_state two_cells) (0, 0) = Fin 0 \<and>
   open_set_hash (init_state two_cells) = {(0, 0)}"
  by (simp add: MazeGrid_def find_position_def grid_at_def py_index_def upt_rec two_cells_def
      init_state_def heappush_def manhattan_distance_def)

subsection \<open>Start equal to goal\<close>

lemma heappop_single: "heappop [e] = Some (e, [])"
  by (simp add: heappop_def)

text \<open>
  Claim C6. For a grid object whose start cell is its goal cell, the search returns the
  one-cell path \<open>[start]\<close>.
\<close>

theorem start_equals_goal:
  assumes "start m = goal m"
  shows "a_star_search m = Some (Inr (Some [start m]))"
proof -
  have "reconstruct_path Map.empty (goal m) = Some [goal m]"
    by (simp add: reconstruct_path_def reconstruct_loop.simps)
  then have "search_loop m (init_state m) = Some (Inr (Some [start m]))"
    using assms
    by (subst search_loop.simps) (simp add: init_state_def heappush_def heappop_single)
  then show ?thesis by (simp add: a_star_search_def)
qed

theorem start_equals_goal_witness:
  "start same_cell = goal same_cell \<and> a_star_search same_cell = Some (Inr (Some [(0, 0)]))"
  using start_equals_goal[of same_cell] by (simp add: same_cell_def)

subsection \<open>The invariant of the search\<close>

lemma search_inv_init: "search_inv m (init_state m)"
  by (simp add: search_inv_def init_state_def heappush_def)

lemma score_less_cases:
  "score_less t old \<longleftrightarrow> (\<exists>a. t = Fin a \<and> (old = Inf \<or> (\<exists>b. old = Fin b \<and> a < b)))"
  by (cases t; cases old) auto

lemma relax_unchanged:
  "\<not> score_less (score_plus (g_score s current) 1) (g_score s neighbor) \<Longrightarrow>
     relax gl current neighbor s = s"
  by (simp add: relax_def)

lemma relax_changed:
  assumes "score_less (score_plus (g_score s current) 1) (g_score s neighbor)"
  shows "\<exists>a. g_score s current = Fin a \<and>
           (g_score s neighbor = Inf \<or> (\<exists>b. g_score s neighbor = Fin b \<and> a + 1 < b)) \<and>
           came_from (relax gl current neighbor s) = (came_from s)(neighbor \<mapsto> current) \<and>
           g_score (relax gl current neighbor s) = (g_score s)(neighbor := Fin (a + 1)) \<and>
           set (open_set (relax gl current neighbor s)) \<subseteq>
             set (open_set s) \<union> {e. snd (snd e) = neighbor}"
proof -
  from assms obtain a where a: "g_score s current = Fin a"
    by (cases "g_score s current") auto
  with assms have "g_score s neighbor = Inf \<or> (\<exists>b. g_score s neighbor = Fin b \<and> a + 1 < b)"
    by (cases "g_score s neighbor") auto
  with a assms show ?thesis
    by (auto simp: relax_def Let_def heappush_def)
qed

lemma search_inv_relax:
  assumes "search_inv m s" "adjacent m current neighbor"
  shows "search_inv m (relax (goal m) current neighbor s)"
proof (cases "score_less (score_plus (g_score s current) 1) (g_score s neighbor)")
  case False
  with assms show ?thesis by (simp add: relax_unchanged)
next
  case True
  let ?s' = "relax (goal m) current neighbor s"
  from relax_changed[OF True, of "goal m"] obtain a where
    a: "g_score s current = Fin a"
    and old: "g_score s neighbor = Inf \<or> (\<exists>b. g_score s neighbor = Fin b \<and> a + 1 < b)"
    and cf: "came_from ?s' = (came_from s)(neighbor \<mapsto> current)"
    and g: "g_score ?s' = (g_score s)(neighbor := Fin (a + 1))"
    and h: "set (open_set ?s') \<subseteq> set (open_set s) \<union> {e. snd (snd e) = neighbor}"
    by blast
  from assms(1) have
    A: "g_score s (start m) = Fin 0" and
    B: "\<And>c k. g_score s c = Fin k \<Longrightarrow> 0 \<le> k" and
    C: "came_from s (start m) = None" and
    D: "\<And>c. c \<noteq> start m \<Longrightarrow> (came_from s c = None \<longleftrightarrow> g_score s c = Inf)" and
    E: "\<And>c p. came_from s c = Some p \<Longrightarrow>
         (\<exists>a b. g_score s p = Fin a \<and> g_score s c = Fin b \<and> a < b)" and
    F: "\<And>e. e \<in> set (open_set s) \<Longrightarrow> g_score s (snd (snd e)) \<noteq> Inf" and
    G: "\<And>c p. came_from s c = Some p \<Longrightarrow> adjacent m p c"
    unfolding search_inv_def by blast+
  have a0: "0 \<le> a" using B[OF a] .
  have ns: "neighbor \<noteq> start m" using old A a0 by auto
  have nc: "neighbor \<noteq> current" using old a by auto
  have A': "g_score ?s' (start m) = Fin 0" using g ns A by simp
  have B': "\<And>c k. g_score ?s' c = Fin k \<Longrightarrow> 0 \<le> k"
    using g B a0 by (auto split: if_splits)
  have C': "came_from ?s' (start m) = None" using cf ns C by simp
  have D': "\<And>c. c \<noteq> start m \<Longrightarrow> (came_from ?s' c = None \<longleftrightarrow> g_score ?s' c = Inf)"
    using cf g D by simp
  have E': "\<exists>x y. g_score ?s' p = Fin x \<and> g_score ?s' c = Fin y \<and> x < y"
    if cp: "came_from ?s' c = Some p" for c p
  proof (cases "c = neighbor")
    case True
    with cp cf have "p = current" by simp
    with True g a nc show ?thesis by simp
  next
    case False
    with cp cf have old_cp: "came_from s c = Some p" by simp
    from E[OF this] obtain x y where xy: "g_score s p = Fin x" "g_score s c = Fin y" "x < y"
      by blast
    show ?thesis
    proof (cases "p = neighbor")
      case True
      with xy old have "a + 1 < x" by auto
      with True False g xy show ?thesis by simp
    next
      case pn: False
      with False g xy show ?thesis by simp
    qed
  qed
  have F': "\<And>e. e \<in> set (open_set ?s') \<Longrightarrow> g_score ?s' (snd (snd e)) \<noteq> Inf"
    using h g F by (auto split: if_splits)
  have G': "\<And>c p. came_from ?s' c = Some p \<Longrightarrow> adjacent m p c"
    using cf G assms(2) by (auto split: if_splits)
  show ?thesis
    unfolding search_inv_def using A' B' C' D' E' F' G' by blast
qed

lemma search_inv_fold:
  "search_inv m s \<Longrightarrow> \<forall>n\<in>set ns. adjacent m current n \<Longrightarrow>
     search_inv m (fold (relax (goal m) current) ns s)"
  by (induction ns arbitrary: s) (simp_all add: search_inv_relax)

lemma heap_min_in: "heap_min e xs \<in> set (e # xs)"
  by (induction xs arbitrary: e) auto

lemma heappop_Some:
  assumes "heappop h = Some (e, rest)"
  shows "e \<in> set h \<and> rest = remove1 e h \<and> Suc (length rest) = length h"
proof -
  from assms obtain x xs where h: "h = x # xs" and e: "e = heap_min x xs"
    and r: "rest = remove1 e h"
    by (auto simp: heappop_def Let_def split: list.splits)
  from heap_min_in[of x xs] h e have "e \<in> set h" by simp
  with r show ?thesis by (simp add: length_remove1) (cases h; simp)
qed

lemma search_inv_pop:
  assumes "search_inv m s" "heappop (open_set s) = Some (e, rest)"
  shows "search_inv m (s\<lparr>open_set := rest, open_set_hash := open_set_hash s - {snd (snd e)}\<rparr>)"
proof -
  from heappop_Some[OF assms(2)] have "set rest \<subseteq> set (open_set s)"
    using set_remove1_subset[of e "open_set s"] by simp
  with assms(1) show ?thesis unfolding search_inv_def by auto
qed

subsection \<open>Path reconstruction\<close>

lemma inv_nonneg: "search_inv m s \<Longrightarrow> g_score s c = Fin k \<Longrightarrow> 0 \<le> k"
  unfolding search_inv_def by blast

lemma inv_pred:
  "search_inv m s \<Longrightarrow> came_from s c = Some p \<Longrightarrow>
     \<exists>a b. g_score s p = Fin a \<and> g_score s c = Fin b \<and> a < b"
  unfolding search_inv_def by blast

lemma inv_adjacent: "search_inv m s \<Longrightarrow> came_from s c = Some p \<Longrightarrow> adjacent m p c"
  unfolding search_inv_def by blast

lemma inv_no_pred:
  "search_inv m s \<Longrightarrow> c \<noteq> start m \<Longrightarrow> came_from s c = None \<Longrightarrow> g_score s c = Inf"
  unfolding search_inv_def by blast

lemma inv_start: "search_inv m s \<Longrightarrow> came_from s (start m) = None \<and> g_score s (start m) = Fin 0"
  unfolding search_inv_def by blast

lemma inv_open: "search_inv m s \<Longrightarrow> e \<in> set (open_set s) \<Longrightarrow> g_score s (snd (snd e)) \<noteq> Inf"
  unfolding search_inv_def by blast

lemma reconstruct_loop_chain:
  "is_chain cf c ch \<Longrightarrow> reconstruct_loop cf c path = Some (rev (path @ ch))"
proof (induction ch arbitrary: c path)
  case Nil
  then show ?case by (subst reconstruct_loop.simps) simp
next
  case (Cons x xs)
  then have "reconstruct_loop cf x (path @ [x]) = Some (rev ((path @ [x]) @ xs))" by simp
  with Cons.prems show ?case by (subst reconstruct_loop.simps) simp
qed

lemma reconstruct_path_chain:
  "is_chain cf c ch \<Longrightarrow> reconstruct_path cf c = Some (rev (c # ch))"
  by (simp add: reconstruct_path_def reconstruct_loop_chain)

lemma chain_exists:
  assumes "search_inv m s"
  shows "\<exists>ch. is_chain (came_from s) c ch"
proof (induction "cost (g_score s c)" arbitrary: c rule: less_induct)
  case less
  show ?case
  proof (cases "came_from s c")
    case None
    then have "is_chain (came_from s) c []" by simp
    then show ?thesis ..
  next
    case (Some p)
    from inv_pred[OF assms Some] obtain a b where
      ab: "g_score s p = Fin a" "g_score s c = Fin b" "a < b" by blast
    from inv_nonneg[OF assms ab(1)] have "0 \<le> a" .
    with ab have "cost (g_score s p) < cost (g_score s c)" by (simp add: cost_def)
    from less[OF this] obtain ch where "is_chain (came_from s) p ch" ..
    with Some have "is_chain (came_from s) c (p # ch)" by simp
    then show ?thesis ..
  qed
qed

lemma chain_end_None: "is_chain cf c ch \<Longrightarrow> cf (last (c # ch)) = None"
  by (induction ch arbitrary: c) auto

lemma chain_end_finite:
  assumes "search_inv m s"
  shows "is_chain (came_from s) c ch \<Longrightarrow> g_score s c \<noteq> Inf \<Longrightarrow>
         g_score s (last (c # ch)) \<noteq> Inf"
proof (induction ch arbitrary: c)
  case Nil
  then show ?case by simp
next
  case (Cons x xs)
  then have "came_from s c = Some x" by simp
  from inv_pred[OF assms this] have "g_score s x \<noteq> Inf" by auto
  with Cons show ?case by simp
qed

lemma chain_end_start:
  assumes "search_inv m s" "is_chain (came_from s) c ch" "g_score s c \<noteq> Inf"
  shows "last (c # ch) = start m"
proof (rule ccontr)
  assume ne: "last (c # ch) \<noteq> start m"
  from chain_end_None[OF assms(2)] have "came_from s (last (c # ch)) = None" .
  from inv_no_pred[OF assms(1) ne this] have "g_score s (last (c # ch)) = Inf" .
  with chain_end_finite[OF assms] show False by simp
qed

lemma walk_snoc: "walk m (xs @ [a]) \<Longrightarrow> adjacent m a b \<Longrightarrow> walk m (xs @ [a, b])"
proof (induction xs)
  case Nil
  then show ?case by simp
next
  case (Cons x xs)
  show ?case
  proof (cases xs)
    case Nil
    with Cons.prems show ?thesis by simp
  next
    case (Cons y ys)
    with Cons.prems Cons.IH show ?thesis by simp
  qed
qed

lemma chain_walk:
  assumes "\<And>c p. cf c = Some p \<Longrightarrow> adjacent m p c"
  shows "is_chain cf c ch \<Longrightarrow> walk m (rev (c # ch))"
proof (induction ch arbitrary: c)
  case Nil
  then show ?case by simp
next
  case (Cons x xs)
  then have "walk m (rev xs @ [x])" and "adjacent m x c" using assms by simp_all
  from walk_snoc[OF this] show ?case by simp
qed

lemma reconstruct_good:
  assumes "search_inv m s" "g_score s (goal m) \<noteq> Inf"
  shows "\<exists>p. reconstruct_path (came_from s) (goal m) = Some p \<and> good_path m p"
proof -
  from chain_exists[OF assms(1)] obtain ch where ch: "is_chain (came_from s) (goal m) ch" ..
  have adj: "\<And>c p. came_from s c = Some p \<Longrightarrow> adjacent m p c"
    using inv_adjacent[OF assms(1)] .
  have "hd (rev (goal m # ch)) = last (goal m # ch)" by (rule hd_rev)
  then have "hd (rev (goal m # ch)) = start m"
    using chain_end_start[OF assms(1) ch assms(2)] by simp
  moreover have "last (rev (goal m # ch)) = goal m" by simp
  moreover have "walk m (rev (goal m # ch))" using chain_walk[OF adj ch] .
  ultimately have "good_path m (rev (goal m # ch))" unfolding good_path_def by simp
  with reconstruct_path_chain[OF ch] show ?thesis by blast
qed

subsection \<open>Neighbours, progress and termination\<close>

lemma collect_neighbors_sound:
  "collect_neighbors m pos ds acc = Inr ns \<Longrightarrow> n \<in> set ns \<Longrightarrow>
     n \<in> set acc \<or>
     (\<exists>d\<in>set ds. n = (fst pos + fst d, snd pos + snd d) \<and> is_valid m n = Inr True)"
proof (induction ds arbitrary: acc)
  case Nil
  then show ?case by simp
next
  case (Cons d ds)
  let ?p = "(fst pos + fst d, snd pos + snd d)"
  from Cons.prems(1) obtain ok where ok: "is_valid m ?p = Inr ok"
    and rest: "collect_neighbors m pos ds (if ok then acc @ [?p] else acc) = Inr ns"
    by (auto simp: Let_def split: sum.splits)
  from Cons.IH[OF rest Cons.prems(2)] ok show ?case
    by (auto split: if_splits)
qed

lemma is_valid_True:
  assumes "is_valid m b = Inr True"
  shows "in_bounds m b \<and> (\<exists>x. grid_at (grid m) (fst b) (snd b) = Inr x \<and> x \<noteq> CHR ''#'')"
  using assms by (cases b) (auto simp: is_valid_def in_bounds_def split: if_splits sum.splits)

lemma adjacent_facts:
  assumes "adjacent m a b"
  shows "is_valid m b = Inr True \<and> orthogonal_step a b"
proof -
  from assms obtain ns where ns: "get_neighbors m a = Inr ns" "b \<in> set ns"
    by (auto simp: adjacent_def split: sum.splits)
  from collect_neighbors_sound[OF ns(1)[unfolded get_neighbors_def] ns(2)]
  obtain d where d: "d \<in> set directions" "b = (fst a + fst d, snd a + snd d)"
    "is_valid m b = Inr True" by auto
  from d(1,2) have "orthogonal_step a b"
    by (auto simp: directions_def orthogonal_step_def)
  with d(3) show ?thesis by simp
qed

lemma adjacent_in_region: "adjacent m a b \<Longrightarrow> b \<in> region m"
  using adjacent_facts[of m a b] is_valid_True[of m b] by (simp add: region_def)

lemma finite_region: "finite (region m)"
proof -
  have "{c. in_bounds m c} \<subseteq> {0..<rows m} \<times> {0..<cols m}"
    by (auto simp: in_bounds_def)
  then have "finite {c. in_bounds m c}" by (rule finite_subset) simp
  then show ?thesis by (simp add: region_def)
qed

lemma relax_progress:
  assumes "search_inv m s" "neighbor \<in> region m"
  shows "relax gl current neighbor s = s \<or> progress m (relax gl current neighbor s) s"
proof (cases "score_less (score_plus (g_score s current) 1) (g_score s neighbor)")
  case False
  then show ?thesis by (simp add: relax_unchanged)
next
  case True
  let ?s' = "relax gl current neighbor s"
  from relax_changed[OF True, of gl] obtain a where
    a: "g_score s current = Fin a"
    and old: "g_score s neighbor = Inf \<or> (\<exists>b. g_score s neighbor = Fin b \<and> a + 1 < b)"
    and g: "g_score ?s' = (g_score s)(neighbor := Fin (a + 1))"
    by blast
  have a0: "0 \<le> a" using inv_nonneg[OF assms(1) a] .
  from old show ?thesis
  proof
    assume inf: "g_score s neighbor = Inf"
    have "{c \<in> region m. g_score ?s' c = Inf} = {c \<in> region m. g_score s c = Inf} - {neighbor}"
      using g by auto
    moreover have "neighbor \<in> {c \<in> region m. g_score s c = Inf}"
      using inf assms(2) by simp
    moreover have "finite {c \<in> region m. g_score s c = Inf}"
      using finite_region[of m] by simp
    ultimately have "unseen m ?s' < unseen m s"
      unfolding unseen_def
      using card_Diff1_less[of "{c \<in> region m. g_score s c = Inf}" neighbor]
      by (simp only:)
    then show ?thesis by (simp add: progress_def)
  next
    assume "\<exists>b. g_score s neighbor = Fin b \<and> a + 1 < b"
    then obtain b where b: "g_score s neighbor = Fin b" "a + 1 < b" by blast
    have same: "{c \<in> region m. g_score ?s' c = Inf} = {c \<in> region m. g_score s c = Inf}"
      using g b by auto
    have split: "\<And>f. (\<Sum>c\<in>region m. f c) = f neighbor + (\<Sum>c\<in>region m - {neighbor}. f c)"
      using finite_region[of m] assms(2) by (simp add: sum.remove)
    have rest: "(\<Sum>c\<in>region m - {neighbor}. cost (g_score ?s' c)) =
                (\<Sum>c\<in>region m - {neighbor}. cost (g_score s c))"
      using g by (intro sum.cong) auto
    have "cost (g_score ?s' neighbor) < cost (g_score s neighbor)"
      using g b a0 by (simp add: cost_def)
    then have "total_g m ?s' < total_g m s"
      unfolding total_g_def
      using split[of "\<lambda>c. cost (g_score ?s' c)"] split[of "\<lambda>c. cost (g_score s c)"] rest
      by simp
    with same show ?thesis by (simp add: progress_def unseen_def)
  qed
qed

lemma progress_trans: "progress m s2 s1 \<Longrightarrow> progress m s1 s \<Longrightarrow> progress m s2 s"
  unfolding progress_def by linarith

lemma fold_progress:
  "search_inv m s \<Longrightarrow> \<forall>n\<in>set ns. adjacent m current n \<Longrightarrow>
     fold (relax (goal m) current) ns s = s \<or> progress m (fold (relax (goal m) current) ns s) s"
proof (induction ns arbitrary: s)
  case Nil
  then show ?case by simp
next
  case (Cons n ns)
  let ?s1 = "relax (goal m) current n s"
  from Cons.prems have adj: "adjacent m current n" by simp
  have inv1: "search_inv m ?s1" using search_inv_relax[OF Cons.prems(1) adj] .
  from Cons.IH[OF inv1] Cons.prems(2)
  have ih: "fold (relax (goal m) current) ns ?s1 = ?s1 \<or>
            progress m (fold (relax (goal m) current) ns ?s1) ?s1" by simp
  from relax_progress[OF Cons.prems(1) adjacent_in_region[OF adj], of "goal m" current]
  have st: "?s1 = s \<or> progress m ?s1 s" .
  from ih st show ?case by (auto intro: progress_trans)
qed

lemma wf_search_rel: "wf (search_rel m)"
  unfolding search_rel_def by (intro wf_inv_image wf_lex_prod wf_less_than)

lemma search_rel_progress:
  "progress m s' s \<Longrightarrow> (s', s) \<in> search_rel m"
  by (auto simp: search_rel_def progress_def)

lemma search_rel_pop:
  "g_score s' = g_score s \<Longrightarrow> length (open_set s') < length (open_set s) \<Longrightarrow>
     (s', s) \<in> search_rel m"
  by (simp add: search_rel_def unseen_def total_g_def)

lemma progress_same_g:
  "g_score s1 = g_score s \<Longrightarrow> progress m s' s1 \<Longrightarrow> progress m s' s"
  by (simp add: progress_def unseen_def total_g_def)

lemma search_loop_result:
  assumes "search_inv m s"
  shows "\<exists>r. search_loop m s = Some r \<and> good_result m r"
  using assms
proof (induction s rule: wf_induct_rule[OF wf_search_rel[of m]])
  case (1 s)
  show ?case
  proof (cases "heappop (open_set s)")
    case None
    then have "search_loop m s = Some (Inr None)"
      by (subst search_loop.simps) simp
    then show ?thesis by (simp add: good_result_def)
  next
    case (Some er)
    obtain e rest where er: "er = (e, rest)" by (cases er)
    define current where "current = snd (snd e)"
    define s1 where "s1 = s\<lparr>open_set := rest, open_set_hash := open_set_hash s - {current}\<rparr>"
    from Some er have pop: "heappop (open_set s) = Some (e, rest)" by simp
    have inv1: "search_inv m s1"
      unfolding s1_def current_def using search_inv_pop[OF "1.prems" pop] .
    from heappop_Some[OF pop] have e_in: "e \<in> set (open_set s)"
      and len: "length rest < length (open_set s)" by auto
    have unfold: "search_loop m s =
      (if current = goal m
       then map_option (\<lambda>p. Inr (Some p)) (reconstruct_path (came_from s1) current)
       else (case get_neighbors m current of
               Inl err \<Rightarrow> Some (Inl err)
             | Inr ns \<Rightarrow> search_loop m (fold (relax (goal m) current) ns s1)))"
      unfolding current_def s1_def
      by (subst search_loop.simps) (simp add: pop Let_def)
    show ?thesis
    proof (cases "current = goal m")
      case True
      have "g_score s1 (goal m) \<noteq> Inf"
        using inv_open[OF "1.prems" e_in] True by (simp add: s1_def current_def)
      from reconstruct_good[OF inv1 this] obtain p where
        "reconstruct_path (came_from s1) (goal m) = Some p" "good_path m p" by blast
      with unfold True show ?thesis by (simp add: good_result_def)
    next
      case False
      show ?thesis
      proof (cases "get_neighbors m current")
        case (Inl err)
        then have "\<not> well_formed m"
          using get_neighbors_well_formed[of m "fst current" "snd current"] by auto
        with unfold False Inl show ?thesis by (simp add: good_result_def)
      next
        case (Inr ns)
        let ?s2 = "fold (relax (goal m) current) ns s1"
        have adj: "\<forall>n\<in>set ns. adjacent m current n"
          using Inr by (simp add: adjacent_def)
        have inv2: "search_inv m ?s2" using search_inv_fold[OF inv1 adj] .
        have "(?s2, s) \<in> search_rel m"
        proof -
          from fold_progress[OF inv1 adj] show ?thesis
          proof
            assume "?s2 = s1"
            then show ?thesis using len by (simp add: search_rel_pop s1_def)
          next
            assume "progress m ?s2 s1"
            then have "progress m ?s2 s" by (rule progress_same_g[rotated]) (simp add: s1_def)
            then show ?thesis by (rule search_rel_progress)
          qed
        qed
        from "1.IH"[OF this inv2] unfold False Inr show ?thesis by simp
      qed
    qed
  qed
qed

lemma a_star_search_result: "\<exists>r. a_star_search m = Some r \<and> good_result m r"
  unfolding a_star_search_def by (rule search_loop_result[OF search_inv_init])

lemma loop_head_inv: "loop_head m s \<Longrightarrow> search_inv m s"
proof (induction rule: loop_head.induct)
  case first
  show ?case by (rule search_inv_init)
next
  case (again s e rest ns)
  have "\<forall>n\<in>set ns. adjacent m (snd (snd e)) n" using again.hyps(4) by (simp add: adjacent_def)
  from search_inv_fold[OF search_inv_pop[OF again.IH again.hyps(2)] this] show ?case .
qed

lemma loop_head_same_result: "loop_head m s \<Longrightarrow> search_loop m s = a_star_search m"
proof (induction rule: loop_head.induct)
  case first
  show ?case by (simp add: a_star_search_def)
next
  case (again s e rest ns)
  have "search_loop m s = search_loop m (fold (relax (goal m) (snd (snd e))) ns
          (s\<lparr>open_set := rest, open_set_hash := open_set_hash s - {snd (snd e)}\<rparr>))"
    by (subst search_loop.simps) (simp add: again.hyps Let_def)
  with again.IH show ?case by simp
qed

lemma run_state_inv: "run_state m s \<Longrightarrow> search_inv m s"
proof (induction rule: run_state.induct)
  case (at_head s)
  then show ?case by (rule loop_head_inv)
next
  case (after_pop s e rest)
  from search_inv_pop[OF loop_head_inv[OF after_pop(1)] after_pop(2)] show ?case .
next
  case (in_for s e rest ns k)
  have "\<forall>n\<in>set (take k ns). adjacent m (snd (snd e)) n"
    using in_for(4) by (auto simp: adjacent_def dest: in_set_takeD)
  from search_inv_fold[OF search_inv_pop[OF loop_head_inv[OF in_for(1)] in_for(2)] this]
  show ?case .
qed

lemma reconstruct_total:
  assumes "search_inv m s"
  shows "\<exists>p. reconstruct_path (came_from s) c = Some p"
proof -
  from chain_exists[OF assms] obtain ch where "is_chain (came_from s) c ch" ..
  from reconstruct_path_chain[OF this] show ?thesis ..
qed

lemma walk_nth: "walk m p \<Longrightarrow> Suc i < length p \<Longrightarrow> adjacent m (p ! i) (p ! Suc i)"
proof (induction m p arbitrary: i rule: walk.induct)
  case (1 m)
  then show ?case by simp
next
  case (2 m a)
  then show ?case by simp
next
  case (3 m a b rest)
  then show ?case by (cases i) auto
qed

lemma walk_tail_valid:
  assumes "walk m p" "c \<in> set (tl p)"
  shows "is_valid m c = Inr True"
proof -
  from assms(2) obtain j where j: "j < length (tl p)" "c = tl p ! j"
    by (auto simp: in_set_conv_nth)
  then have "Suc j < length p" "c = p ! Suc j" by (simp_all add: nth_tl)
  with walk_nth[OF assms(1), of j] adjacent_facts show ?thesis by simp
qed

lemma MazeGrid_well_formed:
  assumes "rectangular g" "MazeGrid g = Inr m"
  shows "well_formed m"
  using assms(1) MazeGrid_Inr(1,2,3)[OF assms(2)]
  by (simp add: well_formed_def rectangular_def list_all_iff)

lemma orthogonal_step_manhattan: "orthogonal_step a b \<Longrightarrow> manhattan_distance a b = 1"
  by (auto simp: orthogonal_step_def manhattan_distance_def)

lemma adjacent_step_rel:
  assumes "well_formed m" "adjacent m a b"
  shows "(a, b) \<in> step_rel m"
  using adjacent_facts[OF assms(2)] is_valid_well_formed[OF assms(1), of b]
  by (simp add: step_rel_def orthogonal_step_manhattan)

lemma walk_connected:
  "walk m p \<Longrightarrow> well_formed m \<Longrightarrow> p \<noteq> [] \<Longrightarrow> (hd p, last p) \<in> (step_rel m)\<^sup>*"
proof (induction m p rule: walk.induct)
  case (1 m)
  then show ?case by simp
next
  case (2 m a)
  then show ?case by simp
next
  case (3 m a b rest)
  then have "(b, last (b # rest)) \<in> (step_rel m)\<^sup>*" by simp
  moreover have "(a, b) \<in> step_rel m" using 3 adjacent_step_rel by simp
  ultimately show ?case by (simp add: converse_rtrancl_into_rtrancl)
qed

subsection \<open>Runs on the example grids\<close>

lemma demo_search:
  "a_star_search demo = Some (Inr (Some [(0, 0), (0, 1), (1, 1), (2, 1), (2, 2)]))"
  by code_simp

lemma demo_second_run: "run_state demo demo_second"
proof -
  let ?e = "(Fin 0, 0, (0, 0)) :: entry"
  have p: "heappop (open_set (init_state demo)) = Some (?e, [])"
    by (simp add: init_state_def heappush_def heappop_def demo_def)
  have g: "snd (snd ?e) \<noteq> goal demo" by (simp add: demo_def)
  have n: "get_neighbors demo (snd (snd ?e)) = Inr [(0, 1)]"
    by (simp add: get_neighbors_def directions_def is_valid_def grid_at_def py_index_def demo_def)
  from run_state.in_for[OF loop_head.first p g n, of 1] show ?thesis
    by (simp add: demo_second_def)
qed

lemma demo_second_pred: "came_from demo_second (0, 1) = Some (0, 0)"
  by (simp add: demo_second_def relax_def init_state_def heappush_def demo_def
      manhattan_distance_def Let_def)

lemma MazeGrid_demo: "MazeGrid [''S #'', ''# #'', ''# G''] = Inr demo"
  by (simp add: MazeGrid_def find_position_def grid_at_def py_index_def demo_def upt_rec)

lemma MazeGrid_wall_row: "MazeGrid [''S '', ''##'', '' G''] = Inr wall_row"
  by (simp add: MazeGrid_def find_position_def grid_at_def py_index_def wall_row_def upt_rec)

lemma wall_row_step: "(a, b) \<in> step_rel wall_row \<Longrightarrow> fst a = 0 \<Longrightarrow> fst b = 0"
proof -
  assume st: "(a, b) \<in> step_rel wall_row" and a0: "fst a = 0"
  then have md: "manhattan_distance a b = 1" and pb: "passable wall_row b"
    by (simp_all add: step_rel_def)
  from pb have b: "0 \<le> fst b" "fst b < 3" "0 \<le> snd b" "snd b < 2"
    by (simp_all add: passable_def in_bounds_def wall_row_def)
  from md a0 b have "fst b = 0 \<or> fst b = 1" by (auto simp: manhattan_distance_def)
  moreover have "fst b \<noteq> 1"
  proof
    assume f1: "fst b = 1"
    from b have "snd b = 0 \<or> snd b = 1" by auto
    with f1 have "marker wall_row b = CHR ''#''"
      by (auto simp: marker_def wall_row_def)
    with pb show False by (simp add: passable_def)
  qed
  ultimately show ?thesis by simp
qed

lemma wall_row_not_connected: "\<not> connected wall_row"
proof
  assume "connected wall_row"
  then have "(start wall_row, goal wall_row) \<in> (step_rel wall_row)\<^sup>*" by (simp add: connected_def)
  then have "fst (start wall_row) = 0 \<longrightarrow> fst (goal wall_row) = 0"
    by (induction rule: rtrancl_induct) (auto dest: wall_row_step)
  then show False by (simp add: wall_row_def)
qed

subsection \<open>The returned path\<close>

text \<open>
  Claim C2. When the search on a constructed grid returns a path, every two consecutive
  cells of the path are one orthogonal step apart, and every cell of the path lies in
  bounds and holds a marker other than the wall \<open>#\<close>.
\<close>

theorem path_steps_orthogonal_no_walls:
  assumes "MazeGrid g = Inr m" "a_star_search m = Some (Inr (Some path))"
  shows "(\<forall>i. Suc i < length path \<longrightarrow> orthogonal_step (path ! i) (path ! Suc i)) \<and>
         (\<forall>c\<in>set path. in_bounds m c \<and>
            (\<exists>x. grid_at g (fst c) (snd c) = Inr x \<and> x \<noteq> CHR ''#''))"
proof -
  from a_star_search_result[of m] assms(2) have gp: "good_path m path"
    by (auto simp: good_result_def)
  then have w: "walk m path" and ne: "path \<noteq> []" and h: "hd path = start m"
    by (simp_all add: good_path_def)
  have g: "grid m = g" by (rule MazeGrid_Inr(1)[OF assms(1)])
  have "first_occurrence (grid m) (rows m) (cols m) (CHR ''S'') (start m)"
    using find_position_first[OF MazeGrid_Inr(4)[OF assms(1)]] MazeGrid_Inr(2,3)[OF assms(1)] g
    by simp
  then have s: "is_valid m (start m) = Inr True" by (rule first_occurrence_valid) simp
  have steps: "orthogonal_step (path ! i) (path ! Suc i)" if "Suc i < length path" for i
    using adjacent_facts[OF walk_nth[OF w that]] by simp
  have valid: "is_valid m c = Inr True" if "c \<in> set path" for c
  proof -
    from ne have "path = hd path # tl path" by simp
    with that have "c = hd path \<or> c \<in> set (tl path)" by (metis set_ConsD)
    then show ?thesis
    proof
      assume "c = hd path"
      with h s show ?thesis by simp
    next
      assume "c \<in> set (tl path)"
      then show ?thesis by (rule walk_tail_valid[OF w])
    qed
  qed
  from steps valid is_valid_True g show ?thesis by blast
qed

theorem path_steps_orthogonal_no_walls_witness:
  "MazeGrid [''S #'', ''# #'', ''# G''] = Inr demo \<and>
   a_star_search demo = Some (Inr (Some [(0, 0), (0, 1), (1, 1), (2, 1), (2, 2)])) \<and>
   orthogonal_step (0, 1) (1, 1) \<and>
   (\<exists>x. grid_at [''S #'', ''# #'', ''# G''] 1 1 = Inr x \<and> x \<noteq> CHR ''#'')"
proof -
  let ?p = "[(0, 0), (0, 1), (1, 1), (2, 1), (2, 2)] :: cell list"
  note t = path_steps_orthogonal_no_walls[OF MazeGrid_demo demo_search]
  from t have steps: "\<forall>i. Suc i < length ?p \<longrightarrow> orthogonal_step (?p ! i) (?p ! Suc i)"
    by (rule conjunct1)
  from t have cells: "\<forall>c\<in>set ?p. in_bounds demo c \<and>
      (\<exists>x. grid_at [''S #'', ''# #'', ''# G''] (fst c) (snd c) = Inr x \<and> x \<noteq> CHR ''#'')"
    by (rule conjunct2)
  from steps[rule_format, of 1] have a: "orthogonal_step (0, 1) (1, 1)" by simp
  from cells[rule_format, of "(1, 1)"]
  have b: "\<exists>x. grid_at [''S #'', ''# #'', ''# G''] 1 1 = Inr x \<and> x \<noteq> CHR ''#''" by simp
  from a b MazeGrid_demo demo_search show ?thesis by simp
qed

text \<open>
  Claim C3. On a grid constructed from a rectangular matrix the search returns, and it
  returns a result and no exception; when the goal cannot be reached from start by
  orthogonal steps over passable cells, the result is \<open>None\<close>.
\<close>

theorem search_terminates:
  assumes "rectangular g" "MazeGrid g = Inr m"
  shows "\<exists>r. a_star_search m = Some (Inr r) \<and> (\<not> connected m \<longrightarrow> r = None)"
proof -
  have wf: "well_formed m" using MazeGrid_well_formed[OF assms] .
  from a_star_search_result[of m] obtain r0 where
    r0: "a_star_search m = Some r0" "good_result m r0" by blast
  from r0(2) wf obtain r where r: "r0 = Inr r" by (cases r0) (auto simp: good_result_def)
  have "connected m" if "r = Some p" for p
  proof -
    from r0(2) r that have "good_path m p" by (simp add: good_result_def)
    then have "walk m p" "p \<noteq> []" "hd p = start m" "last p = goal m"
      by (simp_all add: good_path_def)
    with walk_connected[OF this(1) wf this(2)] show ?thesis by (simp add: connected_def)
  qed
  then have "\<not> connected m \<longrightarrow> r = None" by (cases r) auto
  with r0(1) r show ?thesis by simp
qed

theorem search_terminates_witness:
  "rectangular [''S '', ''##'', '' G''] \<and> MazeGrid [''S '', ''##'', '' G''] = Inr wall_row \<and>
   \<not> connected wall_row \<and> a_star_search wall_row = Some (Inr None)"
proof -
  have r: "rectangular [''S '', ''##'', '' G'']" by (simp add: rectangular_def width_def)
  from search_terminates[OF r MazeGrid_wall_row] wall_row_not_connected r MazeGrid_wall_row
  show ?thesis by auto
qed

text \<open>
  Claim C10. In every state of a run the start cell has no entry in \<open>came_from\<close> and
  its cost is \<open>0\<close>, and \<open>reconstruct_path\<close> returns from whatever cell it is started;
  the search returns, and a returned path begins with start and ends with goal.
\<close>

theorem start_has_no_predecessor:
  "(\<forall>s. run_state m s \<longrightarrow>
      came_from s (start m) = None \<and> g_score s (start m) = Fin 0 \<and>
      (\<forall>c. \<exists>p. reconstruct_path (came_from s) c = Some p)) \<and>
   (\<exists>r. a_star_search m = Some r \<and>
      (\<forall>p. r = Inr (Some p) \<longrightarrow> p \<noteq> [] \<and> hd p = start m \<and> last p = goal m))"
proof -
  have "came_from s (start m) = None \<and> g_score s (start m) = Fin 0 \<and>
        (\<forall>c. \<exists>p. reconstruct_path (came_from s) c = Some p)" if "run_state m s" for s
    using inv_start[OF run_state_inv[OF that]] reconstruct_total[OF run_state_inv[OF that]]
    by simp
  moreover from a_star_search_result[of m] obtain r where
    r: "a_star_search m = Some r" "good_result m r" by blast
  then have "\<forall>p. r = Inr (Some p) \<longrightarrow> p \<noteq> [] \<and> hd p = start m \<and> last p = goal m"
    by (auto simp: good_result_def good_path_def)
  ultimately show ?thesis using r(1) by blast
qed

theorem start_has_no_predecessor_witness:
  "run_state demo demo_second \<and> came_from demo_second (0, 1) = Some (0, 0) \<and>
   came_from demo_second (start demo) = None \<and>
   a_star_search demo = Some (Inr (Some [(0, 0), (0, 1), (1, 1), (2, 1), (2, 2)])) \<and>
   hd [(0, 0), (0, 1), (1, 1), (2, 1), (2, 2)] = start demo \<and>
   last [(0, 0), (0, 1), (1, 1), (2, 1), (2, 2)] = goal demo"
  using start_has_no_predecessor[of demo] demo_second_run demo_second_pred demo_search
  by auto

text \<open>
  Claim C1. On the grid \<open>detour\<close> the search returns a path of 13 steps, while the path
  along the bottom row is a path from start to goal of 11 steps, which is also the
  distance the reference breadth-first search computes.
\<close>

theorem returned_path_not_shortest:
  "MazeGrid [''G#    ##'', '' # ##   '', ''   #  #S'', ''##      ''] = Inr detour \<and>
   a_star_search detour = Some (Inr (Some
     [(2, 7), (1, 7), (1, 6), (1, 5), (0, 5), (0, 4), (0, 3), (0, 2),
      (1, 2), (2, 2), (2, 1), (2, 0), (1, 0), (0, 0)])) \<and>
   int (length [(2, 7), (1, 7), (1, 6), (1, 5), (0, 5), (0, 4), (0, 3), (0, 2),
      (1, 2), (2, 2), (2, 1), (2, 0), (1, 0), (0, 0 :: int) :: cell]) - 1 = 13 \<and>
   good_path detour
     [(2, 7), (3, 7), (3, 6), (3, 5), (3, 4), (3, 3), (3, 2), (2, 2),
      (2, 1), (2, 0), (1, 0), (0, 0)] \<and>
   int (length [(2, 7), (3, 7), (3, 6), (3, 5), (3, 4), (3, 3), (3, 2), (2, 2),
      (2, 1), (2, 0), (1, 0), (0, 0 :: int) :: cell]) - 1 = 11 \<and>
   bfs_distance detour = Some 11"
  by code_simp

end
